theory Spec2Isabelle
  imports Main
begin

section \<open>The sender link as the handlers see it\<close>

text \<open>
  The handlers of \<^verbatim>\<open>send_lots.cpp\<close>, \<^verbatim>\<open>send_lots_tls.cpp\<close>, \<^verbatim>\<open>send_lots_leaky.cpp\<close> and
  \<^verbatim>\<open>send_receive_failover.cpp\<close> talk to a \<^verbatim>\<open>proton::sender\<close> through three calls:
  \<^verbatim>\<open>s.credit()\<close>, \<^verbatim>\<open>s.send(msg)\<close> and \<^verbatim>\<open>t.connection().close()\<close>. The link is the
  environment of the handler: \<open>credit\<close> is what \<^verbatim>\<open>s.credit()\<close> returns, a \<^verbatim>\<open>flow\<close>
  performative of the peer grants credit, every \<^verbatim>\<open>s.send\<close> emits one transfer and uses
  one unit of credit. Each emitted transfer is logged with the credit the link had when
  \<^verbatim>\<open>s.send\<close> was called and with the handler's count of messages sent before it.
  \<open>close_calls\<close> counts the invocations of \<^verbatim>\<open>connection().close()\<close>.
\<close>

record link_env =
  credit :: int
  transfers :: "(int \<times> int) list"
  close_calls :: nat

definition flow :: "nat \<Rightarrow> 'a link_env_scheme \<Rightarrow> 'a link_env_scheme" where
  "flow g s = s\<lparr>credit := credit s + int g\<rparr>"

definition send_msg :: "int \<Rightarrow> 'a link_env_scheme \<Rightarrow> 'a link_env_scheme" where
  "send_msg k s = s\<lparr>credit := credit s - 1, transfers := transfers s @ [(credit s, k)]\<rparr>"

definition connection_close :: "'a link_env_scheme \<Rightarrow> 'a link_env_scheme" where
  "connection_close s = s\<lparr>close_calls := Suc (close_calls s)\<rparr>"

section \<open>LoggingHandler (send\_lots, send\_lots\_tls, send\_lots\_leaky)\<close>

text \<open>
  The three files declare the same fields \<^verbatim>\<open>int sent; int number_to_send; bool closed;\<close>
  and the same constructor (\<^verbatim>\<open>sent = 0\<close>, \<^verbatim>\<open>closed = false\<close>).
  \<open>sent\<close> is incremented only while it is below \<open>number_to_send\<close>, so it stays in the
  range of \<^verbatim>\<open>int\<close> and is an integer here.
\<close>

record logging_handler = link_env +
  sent :: int
  number_to_send :: int
  closed :: bool

definition LoggingHandler :: "int \<Rightarrow> logging_handler" where
  "LoggingHandler n =
     \<lparr>credit = 0, transfers = [], close_calls = 0, sent = 0, number_to_send = n, closed = False\<rparr>"

text \<open>
  \<^verbatim>\<open>on_tracker_accept\<close>, identical in the three files:
  \<^verbatim>\<open>if (sent == number_to_send && !closed) { t.connection().close(); closed = true; }\<close>
\<close>

definition on_tracker_accept :: "logging_handler \<Rightarrow> logging_handler" where
  "on_tracker_accept s =
     (if sent s = number_to_send s \<and> \<not> closed s
      then (connection_close s)\<lparr>closed := True\<rparr>
      else s)"

text \<open>
  \<^verbatim>\<open>on_sendable\<close> of \<^verbatim>\<open>send_lots.cpp\<close>:
  \<^verbatim>\<open>while (s.credit() > 0 && (sent < number_to_send)) { s.send (msg); sent++; }\<close>
\<close>

function on_sendable :: "logging_handler \<Rightarrow> logging_handler" where
  "on_sendable s =
     (if credit s > 0 \<and> sent s < number_to_send s
      then on_sendable ((send_msg (sent s) s)\<lparr>sent := sent s + 1\<rparr>)
      else s)"
  by pat_completeness auto
termination
  by (relation "measure (\<lambda>s. nat (number_to_send s - sent s))") (auto simp: send_msg_def)

text \<open>
  \<^verbatim>\<open>on_sendable\<close> of \<^verbatim>\<open>send_lots_tls.cpp\<close> and \<^verbatim>\<open>send_lots_leaky.cpp\<close>: the test of
  the credit is \<^verbatim>\<open>s.credit()\<close>, true for every value other than zero:
  \<^verbatim>\<open>while (s.credit() && (sent < number_to_send)) { s.send (msg); sent++; }\<close>
\<close>

function on_sendable_tls :: "logging_handler \<Rightarrow> logging_handler" where
  "on_sendable_tls s =
     (if credit s \<noteq> 0 \<and> sent s < number_to_send s
      then on_sendable_tls ((send_msg (sent s) s)\<lparr>sent := sent s + 1\<rparr>)
      else s)"
  by pat_completeness auto
termination
  by (relation "measure (\<lambda>s. nat (number_to_send s - sent s))") (auto simp: send_msg_def)

declare on_sendable.simps [simp del] on_sendable_tls.simps [simp del]

text \<open>
  What the container delivers to the handler: a \<^verbatim>\<open>flow\<close> of the peer granting credit,
  an invocation of \<^verbatim>\<open>on_sendable\<close>, and an \<^verbatim>\<open>accepted\<close> disposition for the transfer
  with the given number (counted from 1), which invokes \<^verbatim>\<open>on_tracker_accept\<close>. The
  handler does not look at which tracker was accepted.
\<close>

datatype event = Flow nat | Sendable | Accept nat

fun step :: "(logging_handler \<Rightarrow> logging_handler) \<Rightarrow> event \<Rightarrow> logging_handler \<Rightarrow> logging_handler" where
  "step osd (Flow g) s = flow g s"
| "step osd Sendable s = osd s"
| "step osd (Accept k) s = on_tracker_accept s"

fun run :: "(logging_handler \<Rightarrow> logging_handler) \<Rightarrow> event list \<Rightarrow> logging_handler \<Rightarrow> logging_handler" where
  "run osd [] s = s"
| "run osd (e # es) s = run osd es (step osd e s)"


fun is_accept :: "event \<Rightarrow> bool" where
  "is_accept (Accept k) = True"
| "is_accept e = False"

section \<open>MyHandler of send\_receive\_failover\<close>

text \<open>
  Fields \<^verbatim>\<open>int sent; int received;\<close>, both 0 after the constructor. The field
  \<^verbatim>\<open>sent\<close> is written \<open>sent_fo\<close> here, since \<open>sent\<close> is the field of LoggingHandler.
  Both counters are unbounded integers here; nothing below depends on their values.
\<close>

record failover_handler = link_env +
  sent_fo :: int
  received :: int

definition FailoverHandler :: failover_handler where
  "FailoverHandler = \<lparr>credit = 0, transfers = [], close_calls = 0, sent_fo = 0, received = 0\<rparr>"

text \<open>
  \<^verbatim>\<open>on_sendable\<close>: \<^verbatim>\<open>s.send (msg); sent++;\<close> with no test of the credit and no
  planned number of messages.
\<close>

definition on_sendable_fo :: "failover_handler \<Rightarrow> failover_handler" where
  "on_sendable_fo s = (send_msg (sent_fo s) s)\<lparr>sent_fo := sent_fo s + 1\<rparr>"

text \<open>\<^verbatim>\<open>on_message\<close>: \<^verbatim>\<open>received++\<close>.\<close>

definition on_message_fo :: "failover_handler \<Rightarrow> failover_handler" where
  "on_message_fo s = s\<lparr>received := received s + 1\<rparr>"

text \<open>
  The container's side of \<^verbatim>\<open>on_sendable\<close> is Proton's and not part of the repository.
  The sources describe when the callback comes: ``on\_sendable -- send a message whenever
  we are allowed to do so'' (\<^verbatim>\<open>send_receive_failover.cpp\<close>), ``the container will call
  on\_sendable() again whenever the receiver allows us to send'' (\<^verbatim>\<open>send_lots.cpp\<close>),
  ``there is reason to think that the sender has link credit from the receiver''
  (\<^verbatim>\<open>send_across_threads.cpp\<close>). \<open>when_credit\<close> is that container: it invokes the
  callback only on a link that has credit.
\<close>

definition when_credit :: "('a link_env_scheme \<Rightarrow> 'a link_env_scheme) \<Rightarrow> 'a link_env_scheme \<Rightarrow> 'a link_env_scheme" where
  "when_credit osd s = (if credit s > 0 then osd s else s)"



section \<open>MyHandler of send\_across\_threads\<close>

text \<open>
  The handler's fields that the claims are about: the pointer \<^verbatim>\<open>work_queue\<close> (null after
  the constructor, the sender's work queue after \<^verbatim>\<open>on_sender_open\<close>), the stored
  \<^verbatim>\<open>sender\<close>, \<^verbatim>\<open>current_sender_credit\<close> and \<^verbatim>\<open>error_raised\<close>. The sender's work queue
  itself is \<open>queue\<close>: the closures added and not yet run by the container, each holding the
  message it captured. \<open>emitted\<close> lists the messages the container has passed to
  \<^verbatim>\<open>sender.send\<close> by running a closure.

  \<open>lock_held\<close> says whether the running code holds \<^verbatim>\<open>lock\<close>, and \<open>accesses\<close> logs every
  read and write of a field together with the value of \<open>lock_held\<close> at that moment.

  \<open>threads\<close> gives for every application thread where it is in \<^verbatim>\<open>send\<close>:
  not in a call, blocked in \<^verbatim>\<open>ready_to_send.wait\<close>, notified and about to take the lock
  and test the loop condition again, past the closing brace of the atomic section, returned,
  left by the exception, or stopped by the call through a null \<^verbatim>\<open>work_queue\<close>.
\<close>

datatype wq_ptr = Null | SenderQueue

datatype closure = SendClosure string

datatype field = F_sender | F_work_queue | F_current_sender_credit | F_error_raised

datatype access = Rd field | Wr field

datatype tstate = Idle | Waiting string | Woken string | Past string | Returned | Threw | NullCall

record my_handler =
  work_queue :: wq_ptr
  sender :: bool
  current_sender_credit :: int
  error_raised :: bool
  queue :: "closure list"
  emitted :: "string list"
  lock_held :: bool
  accesses :: "(access \<times> bool) list"
  threads :: "nat \<Rightarrow> tstate"

definition MyHandler :: my_handler where
  "MyHandler = \<lparr>work_queue = Null, sender = False, current_sender_credit = 0,
     error_raised = False, queue = [], emitted = [], lock_held = False, accesses = [],
     threads = (\<lambda>t. Idle)\<rparr>"

definition acquire :: "my_handler \<Rightarrow> my_handler" where
  "acquire s = s\<lparr>lock_held := True\<rparr>"

definition release :: "my_handler \<Rightarrow> my_handler" where
  "release s = s\<lparr>lock_held := False\<rparr>"

definition touch :: "access \<Rightarrow> my_handler \<Rightarrow> my_handler" where
  "touch a s = s\<lparr>accesses := accesses s @ [(a, lock_held s)]\<rparr>"

text \<open>\<^verbatim>\<open>ready_to_send.notify_all()\<close>: every thread blocked in the wait is woken.\<close>

definition notify_all :: "my_handler \<Rightarrow> my_handler" where
  "notify_all s =
     s\<lparr>threads := (\<lambda>t. case threads s t of Waiting m \<Rightarrow> Woken m | x \<Rightarrow> x)\<rparr>"

text \<open>
  \<^verbatim>\<open>on_sender_open\<close>:
  \<^verbatim>\<open>std::lock_guard<std::mutex> dummy(lock); sender = s; work_queue = &s.work_queue();\<close>
\<close>

definition on_sender_open :: "my_handler \<Rightarrow> my_handler" where
  "on_sender_open s =
     (let s1 = acquire s;
          s2 = touch (Wr F_sender) (s1\<lparr>sender := True\<rparr>);
          s3 = touch (Wr F_work_queue) (s2\<lparr>work_queue := SenderQueue\<rparr>)
      in release s3)"

text \<open>
  \<^verbatim>\<open>on_sendable\<close>, where \<open>c\<close> is the value of \<^verbatim>\<open>s.credit()\<close>:
  \<^verbatim>\<open>std::lock_guard<std::mutex> l(lock); ready_to_send.notify_all(); current_sender_credit = s.credit();\<close>
\<close>

definition on_sendable_mt :: "int \<Rightarrow> my_handler \<Rightarrow> my_handler" where
  "on_sendable_mt c s =
     (let s1 = acquire s;
          s2 = notify_all s1;
          s3 = touch (Wr F_current_sender_credit) (s2\<lparr>current_sender_credit := c\<rparr>)
      in release s3)"

text \<open>
  \<^verbatim>\<open>on_error\<close>: \<^verbatim>\<open>error_raised = true; ready_to_send.notify_all();\<close> There is no
  \<^verbatim>\<open>lock_guard\<close> in this method.
\<close>

definition on_error :: "my_handler \<Rightarrow> my_handler" where
  "on_error s =
     (let s1 = touch (Wr F_error_raised) (s\<lparr>error_raised := True\<rparr>)
      in notify_all s1)"

text \<open>
  The condition of the loop in \<^verbatim>\<open>send\<close>,
  \<^verbatim>\<open>!work_queue && (current_sender_credit == 0 && !error_raised)\<close>, evaluated from left
  to right as \<^verbatim>\<open>&&\<close> does: a field is read only when the fields before it did not decide.
\<close>

definition wait_test :: "my_handler \<Rightarrow> bool \<times> my_handler" where
  "wait_test s =
     (let s1 = touch (Rd F_work_queue) s in
      if work_queue s1 \<noteq> Null then (False, s1)
      else let s2 = touch (Rd F_current_sender_credit) s1 in
        if current_sender_credit s2 \<noteq> 0 then (False, s2)
        else let s3 = touch (Rd F_error_raised) s2 in (\<not> error_raised s3, s3))"

text \<open>
  The atomic section of \<^verbatim>\<open>send\<close> for thread \<open>t\<close> and message \<open>m\<close>: with the lock held,
  test the loop condition; if it is true the thread blocks in \<^verbatim>\<open>ready_to_send.wait (l)\<close>,
  which gives the lock back, otherwise the thread leaves the section and the
  \<^verbatim>\<open>unique_lock\<close> is destroyed.
\<close>

definition send_locked :: "nat \<Rightarrow> string \<Rightarrow> my_handler \<Rightarrow> my_handler" where
  "send_locked t m s =
     (let s1 = acquire s;
          (w, s2) = wait_test s1
      in release (s2\<lparr>threads := (threads s2)(t := (if w then Waiting m else Past m))\<rparr>))"

text \<open>A thread that is not inside \<^verbatim>\<open>send\<close> calls it.\<close>

definition send_enter :: "nat \<Rightarrow> string \<Rightarrow> my_handler \<Rightarrow> my_handler" where
  "send_enter t m s =
     (if threads s t = Idle \<or> threads s t = Returned then send_locked t m s else s)"

text \<open>A woken thread takes the lock again inside \<^verbatim>\<open>wait\<close> and goes round the loop.\<close>

definition send_resume :: "nat \<Rightarrow> my_handler \<Rightarrow> my_handler" where
  "send_resume t s = (case threads s t of Woken m \<Rightarrow> send_locked t m s | _ \<Rightarrow> s)"

text \<open>
  The rest of \<^verbatim>\<open>send\<close>, after the atomic section:
  \<^verbatim>\<open>if (error_raised) throw std::runtime_error (...); else { proton::message msg (s); work_queue->add([=]() { this->sender.send (msg); }); }\<close>
  A call of \<^verbatim>\<open>add\<close> through a null \<^verbatim>\<open>work_queue\<close> has no defined behaviour; the thread is
  then in \<open>NullCall\<close> and nothing is added.
\<close>

definition send_finish :: "nat \<Rightarrow> my_handler \<Rightarrow> my_handler" where
  "send_finish t s =
     (case threads s t of
        Past m \<Rightarrow>
          (let s1 = touch (Rd F_error_raised) s in
           if error_raised s1 then s1\<lparr>threads := (threads s1)(t := Threw)\<rparr>
           else let s2 = touch (Rd F_work_queue) s1 in
             if work_queue s2 = Null then s2\<lparr>threads := (threads s2)(t := NullCall)\<rparr>
             else s2\<lparr>queue := queue s2 @ [SendClosure m],
                     threads := (threads s2)(t := Returned)\<rparr>)
      | _ \<Rightarrow> s)"

text \<open>
  The container pops the first closure of the work queue and runs it on its own thread:
  \<^verbatim>\<open>this->sender.send (msg)\<close>.
\<close>

definition drain :: "my_handler \<Rightarrow> my_handler" where
  "drain s =
     (case queue s of
        [] \<Rightarrow> s
      | SendClosure m # q \<Rightarrow> (touch (Rd F_sender) s)\<lparr>queue := q, emitted := emitted s @ [m]\<rparr>)"

text \<open>A condition variable may wake a waiting thread without a notification.\<close>

definition spurious :: "nat \<Rightarrow> my_handler \<Rightarrow> my_handler" where
  "spurious t s =
     (case threads s t of Waiting m \<Rightarrow> s\<lparr>threads := (threads s)(t := Woken m)\<rparr> | _ \<Rightarrow> s)"

text \<open>
  One step of the program: a callback on the container thread, or a move of one
  application thread. The methods that take the lock exclude each other, so each is one
  step; \<^verbatim>\<open>on_error\<close> and the end of \<^verbatim>\<open>send\<close> take no lock and are one step each as well.
  Since \<^verbatim>\<open>on_error\<close> takes no lock, in the program it can also fall between the test of
  the loop condition and the block in \<^verbatim>\<open>wait\<close>, and leave the caller blocked with
  \<open>error_raised\<close> true; the steps here do not have that interleaving.
\<close>

datatype mt_event =
    OnSenderOpen | OnSendable int | OnError | Drain
  | Call nat string | Resume nat | Finish nat | Spurious nat

fun mt_step :: "mt_event \<Rightarrow> my_handler \<Rightarrow> my_handler" where
  "mt_step OnSenderOpen s = on_sender_open s"
| "mt_step (OnSendable c) s = on_sendable_mt c s"
| "mt_step OnError s = on_error s"
| "mt_step Drain s = drain s"
| "mt_step (Call t m) s = send_enter t m s"
| "mt_step (Resume t) s = send_resume t s"
| "mt_step (Finish t) s = send_finish t s"
| "mt_step (Spurious t) s = spurious t s"

fun mt_run :: "mt_event list \<Rightarrow> my_handler \<Rightarrow> my_handler" where
  "mt_run [] s = s"
| "mt_run (e # es) s = mt_run es (mt_step e s)"

text \<open>
  The condition the comment in \<^verbatim>\<open>send\<close> asks for before a call goes on: ``wait until the
  work\_queue exists'' and ``until there is sufficient credit, or an error has been raised''.
\<close>

definition may_proceed :: "my_handler \<Rightarrow> bool" where
  "may_proceed s =
     (work_queue s \<noteq> Null \<and> (current_sender_credit s > 0 \<or> error_raised s))"

text \<open>A thread calls \<^verbatim>\<open>send\<close> for each message of a list, finishing each call before the next.\<close>

fun calls :: "nat \<Rightarrow> string list \<Rightarrow> mt_event list" where
  "calls t [] = []"
| "calls t (m # ms) = Call t m # Finish t # calls t ms"

fun is_replenish :: "mt_event \<Rightarrow> bool" where
  "is_replenish (OnSendable c) = True"
| "is_replenish e = False"

section \<open>Receivers with explicit acknowledgement\<close>

text \<open>
  A \<^verbatim>\<open>proton::delivery\<close> is the list of dispositions the application has issued on it.
  A callback either returns or is left by an exception.
\<close>

datatype disposition = D_accept | D_reject | D_release | D_modify

record delivery =
  dispositions :: "disposition list"

definition accept :: "delivery \<Rightarrow> delivery" where
  "accept d = d\<lparr>dispositions := dispositions d @ [D_accept]\<rparr>"

definition reject :: "delivery \<Rightarrow> delivery" where
  "reject d = d\<lparr>dispositions := dispositions d @ [D_reject]\<rparr>"

datatype 'a outcome = Normal 'a | Exception 'a

text \<open>
  The body of a message, and the two conversions of Proton the handlers call. They are
  not part of the repository: \<^verbatim>\<open>proton::get<std::string>\<close> gives the string of a body
  that is a string and throws otherwise, \<^verbatim>\<open>proton::coerce<std::string>\<close> also converts
  a symbol. \<open>None\<close> is the exception. The handlers below take the conversion as a
  parameter.
\<close>

datatype amqp_value = V_null | V_bool bool | V_long int | V_string string | V_symbol string

fun get_string :: "amqp_value \<Rightarrow> string option" where
  "get_string (V_string s) = Some s"
| "get_string v = None"

fun coerce_string :: "amqp_value \<Rightarrow> string option" where
  "coerce_string (V_string s) = Some s"
| "coerce_string (V_symbol s) = Some s"
| "coerce_string v = None"

text \<open>
  \<^verbatim>\<open>on_message\<close> of \<^verbatim>\<open>receive_client_ack.cpp\<close>:
  \<^verbatim>\<open>try { std::string s = proton::get<std::string>(msg.body()); dlv.accept(); } catch (std::exception &e) { dlv.reject(); }\<close>
\<close>

definition on_message_client_ack :: "('b \<Rightarrow> string option) \<Rightarrow> 'b \<Rightarrow> delivery \<Rightarrow> delivery outcome" where
  "on_message_client_ack get body dlv =
     (case get body of
        Some s \<Rightarrow> Normal (accept dlv)
      | None \<Rightarrow> Normal (reject dlv))"

text \<open>
  \<^verbatim>\<open>container_per_thread.cpp\<close>: \<^verbatim>\<open>handle_message\<close> returns 1, and \<^verbatim>\<open>on_message\<close> is
  \<^verbatim>\<open>count++; proton::value v = msg.body(); std::string m = proton::coerce<std::string> (v); if (handle_message (m)) dlv.accept(); else dlv.reject();\<close>
  with no \<^verbatim>\<open>try\<close> around the conversion. The message handler is a parameter, so that a
  handler that reports a failure can be put in its place.
\<close>

definition handle_message :: "string \<Rightarrow> int" where
  "handle_message msg = 1"

record per_thread_handler =
  count :: int
  my_num :: int

definition on_message_per_thread ::
  "('b \<Rightarrow> string option) \<Rightarrow> (string \<Rightarrow> int) \<Rightarrow> 'b \<Rightarrow> per_thread_handler \<Rightarrow> delivery
     \<Rightarrow> (per_thread_handler \<times> delivery) outcome" where
  "on_message_per_thread coerce hm body h dlv =
     (let h1 = h\<lparr>count := count h + 1\<rparr> in
      case coerce body of
        None \<Rightarrow> Exception (h1, dlv)
      | Some m \<Rightarrow>
          if hm m \<noteq> 0 then Normal (h1, accept dlv) else Normal (h1, reject dlv))"

text \<open>
  The container's part, as the head of \<^verbatim>\<open>receive_client_ack.cpp\<close> describes it: ``the
  default response by Proton is to accept the delivery. The application can, instead, call
  one of the proton::delivery messages to change that outcome''; \<^verbatim>\<open>ro.auto_accept (false)\<close>
  in \<^verbatim>\<open>container_per_thread.cpp\<close> switches the default off. \<open>settle_after\<close> gives the
  dispositions of a delivery once the callback is over.
\<close>

definition settle_after :: "bool \<Rightarrow> delivery outcome \<Rightarrow> disposition list" where
  "settle_after auto_accept r =
     (case r of
        Normal d \<Rightarrow> if auto_accept \<and> dispositions d = [] then [D_accept] else dispositions d
      | Exception d \<Rightarrow> dispositions d)"

definition new_delivery :: delivery where
  "new_delivery = \<lparr>dispositions = []\<rparr>"

definition client_ack_dispositions :: "('b \<Rightarrow> string option) \<Rightarrow> 'b \<Rightarrow> disposition list" where
  "client_ack_dispositions get body =
     settle_after True (on_message_client_ack get body new_delivery)"

definition per_thread_dispositions ::
  "('b \<Rightarrow> string option) \<Rightarrow> (string \<Rightarrow> int) \<Rightarrow> per_thread_handler \<Rightarrow> 'b \<Rightarrow> disposition list" where
  "per_thread_dispositions coerce hm h body =
     settle_after False
       (case on_message_per_thread coerce hm body h new_delivery of
          Normal r \<Rightarrow> Normal (snd r) | Exception r \<Rightarrow> Exception (snd r))"

section \<open>ReceiveHandler of server\<close>

text \<open>
  What \<^verbatim>\<open>on_receiver_open\<close> can close: the receiver link, its session, the connection.
  Each is open, or closed with the description of an error condition.
\<close>

datatype endpoint = Open | Closed_with string

record server_peer =
  receiver_state :: endpoint
  session_state :: endpoint
  connection_state :: endpoint

definition attached :: server_peer where
  "attached = \<lparr>receiver_state = Open, session_state = Open, connection_state = Open\<rparr>"

text \<open>
  \<^verbatim>\<open>on_receiver_open\<close>, with \<open>address\<close> the value of \<^verbatim>\<open>r.target().address()\<close>:
  \<^verbatim>\<open>if (address != "foo") { r.connection().close (proton::error_condition ("Invalid address")); }\<close>
  The lines that would close the receiver or the session are commented out in the source
  (``Fails'').
\<close>

definition on_receiver_open :: "string \<Rightarrow> server_peer \<Rightarrow> server_peer" where
  "on_receiver_open address p =
     (if address \<noteq> ''foo''
      then p\<lparr>connection_state := Closed_with ''Invalid address''\<rparr>
      else p)"

section \<open>Invariants used in the proofs\<close>



text \<open>The counter \<open>sent\<close> counts the transfers and stays below the planned number.\<close>

definition planned :: "int \<Rightarrow> logging_handler \<Rightarrow> bool" where
  "planned n s = (number_to_send s = n \<and> sent s \<le> n \<and> int (length (transfers s)) = sent s)"

text \<open>
  Some \<^verbatim>\<open>on_tracker_accept\<close> of the run came when \<open>sent\<close> had reached the planned
  number \<open>n\<close>.
\<close>

definition accept_after_all :: "int \<Rightarrow> event list \<Rightarrow> bool" where
  "accept_after_all n evs =
     (\<exists>pre k post. evs = pre @ Accept k # post
        \<and> sent (run on_sendable pre (LoggingHandler n)) = n)"

text \<open>
  The state of the thread-safe sender between a replenishment that recorded credit \<open>c\<close>
  and the next one, while no error is raised: the work queue is there, the recorded credit
  is \<open>c\<close>, and no thread is blocked in the wait.
\<close>

definition replenished :: "int \<Rightarrow> my_handler \<Rightarrow> bool" where
  "replenished c r = (work_queue r \<noteq> Null \<and> \<not> error_raised r \<and> current_sender_credit r = c
     \<and> (\<forall>t m. threads r t \<noteq> Waiting m))"

text \<open>
  The message a closure holds, and the messages of the calls of \<^verbatim>\<open>send\<close> that reach
  their end in a run, in the order in which they reach it.
\<close>

fun msg_of :: "closure \<Rightarrow> string" where
  "msg_of (SendClosure m) = m"

fun finishing :: "mt_event \<Rightarrow> my_handler \<Rightarrow> string list" where
  "finishing (Finish t) s = (case threads s t of Past m \<Rightarrow> [m] | _ \<Rightarrow> [])"
| "finishing e s = []"

fun completed :: "mt_event list \<Rightarrow> my_handler \<Rightarrow> string list" where
  "completed [] s = []"
| "completed (e # es) s = finishing e s @ completed es (mt_step e s)"

section \<open>Properties of the senders\<close>

lemma on_sendable_unfold:
  "on_sendable s = (if credit s > 0 \<and> sent s < number_to_send s
      then on_sendable ((send_msg (sent s) s)\<lparr>sent := sent s + 1\<rparr>) else s)"
  by (rule on_sendable.simps)

lemma on_sendable_tls_unfold:
  "on_sendable_tls s = (if credit s \<noteq> 0 \<and> sent s < number_to_send s
      then on_sendable_tls ((send_msg (sent s) s)\<lparr>sent := sent s + 1\<rparr>) else s)"
  by (rule on_sendable_tls.simps)

lemma run_append: "run osd (xs @ ys) s = run osd ys (run osd xs s)"
  by (induction xs arbitrary: s) auto


subsection \<open>The loop of on\_sendable leaves closed, close\_calls and number\_to\_send alone\<close>

lemma on_sendable_keeps:
  "closed (on_sendable s) = closed s \<and> close_calls (on_sendable s) = close_calls s
   \<and> number_to_send (on_sendable s) = number_to_send s"
proof (induction s rule: on_sendable.induct)
  case (1 s)
  show ?case
  proof (cases "credit s > 0 \<and> sent s < number_to_send s")
    case True
    then have "on_sendable s = on_sendable ((send_msg (sent s) s)\<lparr>sent := sent s + 1\<rparr>)"
      by (subst on_sendable_unfold) simp
    then show ?thesis using 1 True by (simp add: send_msg_def)
  next
    case False
    then have "on_sendable s = s" by (subst on_sendable_unfold) auto
    then show ?thesis by simp
  qed
qed

lemma on_sendable_tls_keeps:
  "closed (on_sendable_tls s) = closed s \<and> close_calls (on_sendable_tls s) = close_calls s
   \<and> number_to_send (on_sendable_tls s) = number_to_send s"
proof (induction s rule: on_sendable_tls.induct)
  case (1 s)
  show ?case
  proof (cases "credit s \<noteq> 0 \<and> sent s < number_to_send s")
    case True
    then have "on_sendable_tls s = on_sendable_tls ((send_msg (sent s) s)\<lparr>sent := sent s + 1\<rparr>)"
      by (subst on_sendable_tls_unfold) simp
    then show ?thesis using 1 True by (simp add: send_msg_def)
  next
    case False
    then have "on_sendable_tls s = s" by (subst on_sendable_tls_unfold) auto
    then show ?thesis by simp
  qed
qed

lemma variant_keeps:
  "osd = on_sendable \<or> osd = on_sendable_tls \<Longrightarrow>
   closed (osd s) = closed s \<and> close_calls (osd s) = close_calls s"
  using on_sendable_keeps on_sendable_tls_keeps by blast

lemma step_closed_mono:
  assumes "osd = on_sendable \<or> osd = on_sendable_tls" and "closed s"
  shows "closed (step osd e s) \<and> close_calls (step osd e s) = close_calls s"
proof (cases e)
  case Sendable
  with variant_keeps [OF assms(1), of s] assms(2) show ?thesis by simp
qed (use assms(2) in \<open>auto simp: flow_def on_tracker_accept_def\<close>)

lemma run_closed_mono:
  assumes "osd = on_sendable \<or> osd = on_sendable_tls"
  shows "closed s \<Longrightarrow> closed (run osd evs s) \<and> close_calls (run osd evs s) = close_calls s"
proof (induction evs arbitrary: s)
  case Nil
  then show ?case by simp
next
  case (Cons e evs)
  from step_closed_mono [OF assms Cons.prems, of e] Cons.IH [of "step osd e s"]
  show ?case by simp
qed

lemma step_close_inv:
  assumes "osd = on_sendable \<or> osd = on_sendable_tls"
    and "close_calls s = (if closed s then 1 else 0)"
  shows "close_calls (step osd e s) = (if closed (step osd e s) then 1 else 0)"
proof (cases e)
  case Sendable
  with variant_keeps [OF assms(1), of s] assms(2) show ?thesis by simp
qed (use assms(2) in \<open>auto simp: flow_def on_tracker_accept_def connection_close_def\<close>)

lemma run_close_inv:
  assumes "osd = on_sendable \<or> osd = on_sendable_tls"
  shows "close_calls s = (if closed s then 1 else 0)
   \<Longrightarrow> close_calls (run osd evs s) = (if closed (run osd evs s) then 1 else 0)"
proof (induction evs arbitrary: s)
  case Nil
  then show ?case by simp
next
  case (Cons e evs)
  from assms Cons.prems have "close_calls (step osd e s) = (if closed (step osd e s) then 1 else 0)"
    by (rule step_close_inv)
  with Cons.IH show ?case by simp
qed

text \<open>
  C10. In the three senders that close on acceptance, \<^verbatim>\<open>connection().close()\<close> is invoked
  at most once in a run: from the constructed handler, and for every sequence of flows,
  \<^verbatim>\<open>on_sendable\<close> and \<^verbatim>\<open>on_tracker_accept\<close> invocations, \<open>close_calls\<close> is at most 1 and is
  1 exactly when \<open>closed\<close> is true; an invocation of \<^verbatim>\<open>on_tracker_accept\<close> that calls close
  calls it once and sets \<open>closed\<close> in the same invocation; once \<open>closed\<close> is true it stays
  true and no later callback calls close again.
\<close>

theorem close_at_most_once:
  assumes "osd = on_sendable \<or> osd = on_sendable_tls"
  shows "close_calls (run osd evs (LoggingHandler n)) \<le> 1
    \<and> closed (run osd evs (LoggingHandler n)) = (close_calls (run osd evs (LoggingHandler n)) = 1)
    \<and> (close_calls (on_tracker_accept s) \<noteq> close_calls s \<longrightarrow>
         close_calls (on_tracker_accept s) = Suc (close_calls s)
         \<and> \<not> closed s \<and> closed (on_tracker_accept s))
    \<and> (closed s' \<longrightarrow> on_tracker_accept s' = s'
         \<and> closed (run osd evs s') \<and> close_calls (run osd evs s') = close_calls s')"
proof -
  have i: "close_calls (LoggingHandler n) = (if closed (LoggingHandler n) then 1 else 0)"
    by (simp add: LoggingHandler_def)
  note r = run_close_inv [OF assms i, of evs]
  have 1: "close_calls (run osd evs (LoggingHandler n)) \<le> 1"
    using r by (simp split: if_splits)
  have 2: "closed (run osd evs (LoggingHandler n)) = (close_calls (run osd evs (LoggingHandler n)) = 1)"
    using r by (simp split: if_splits)
  have 3: "close_calls (on_tracker_accept s) \<noteq> close_calls s \<longrightarrow>
         close_calls (on_tracker_accept s) = Suc (close_calls s)
         \<and> \<not> closed s \<and> closed (on_tracker_accept s)"
    by (simp add: on_tracker_accept_def connection_close_def)
  have 4: "closed s' \<longrightarrow> on_tracker_accept s' = s'
         \<and> closed (run osd evs s') \<and> close_calls (run osd evs s') = close_calls s'"
    using run_closed_mono [OF assms, of s' evs] by (simp add: on_tracker_accept_def)
  from 1 2 3 4 show ?thesis by blast
qed

lemmas eval_sender =
  on_sendable_unfold on_sendable_tls_unfold flow_def send_msg_def LoggingHandler_def
  on_tracker_accept_def connection_close_def

theorem close_at_most_once_witness:
  "(on_sendable_tls = on_sendable \<or> on_sendable_tls = on_sendable_tls)
   \<and> close_calls (run on_sendable_tls [Flow 3, Sendable, Accept 1, Accept 2, Accept 3] (LoggingHandler 3)) = 1
   \<and> close_calls (on_tracker_accept (run on_sendable_tls [Flow 3, Sendable] (LoggingHandler 3)))
       \<noteq> close_calls (run on_sendable_tls [Flow 3, Sendable] (LoggingHandler 3))
   \<and> closed (run on_sendable_tls [Flow 3, Sendable, Accept 1] (LoggingHandler 3))
   \<and> close_calls (run on_sendable_tls [Flow 3, Sendable, Accept 1, Accept 2, Accept 3]
         (run on_sendable_tls [Flow 3, Sendable, Accept 1] (LoggingHandler 3))) = 1"
  using close_at_most_once [of on_sendable_tls "[Flow 3, Sendable, Accept 1, Accept 2, Accept 3]" 3
      "run on_sendable_tls [Flow 3, Sendable] (LoggingHandler 3)"
      "run on_sendable_tls [Flow 3, Sendable, Accept 1] (LoggingHandler 3)"]
  by (simp add: eval_sender)

subsection \<open>Credit accounting\<close>









text \<open>
  The callback of \<^verbatim>\<open>send_receive_failover.cpp\<close> has no test of its own: called on a link
  without credit it would send all the same. That it is called only on a link with credit
  is the container's part.
\<close>

lemma on_sendable_fo_untested:
  "transfers (on_sendable_fo FailoverHandler) = [(0, 0)]
   \<and> transfers (when_credit on_sendable_fo FailoverHandler) = []"
  by (simp add: on_sendable_fo_def when_credit_def send_msg_def FailoverHandler_def)



subsection \<open>When send\_lots closes the connection\<close>

lemma on_sendable_planned: "planned n s \<Longrightarrow> planned n (on_sendable s)"
proof (induction s rule: on_sendable.induct)
  case (1 s)
  show ?case
  proof (cases "credit s > 0 \<and> sent s < number_to_send s")
    case True
    let ?s' = "(send_msg (sent s) s)\<lparr>sent := sent s + 1\<rparr>"
    have eq: "on_sendable s = on_sendable ?s'"
      using True by (subst on_sendable_unfold) simp
    have "planned n ?s'" using "1.prems" True by (auto simp: planned_def send_msg_def)
    with "1.IH" True eq show ?thesis by simp
  next
    case False
    then have "on_sendable s = s" by (subst on_sendable_unfold) auto
    with "1.prems" show ?thesis by simp
  qed
qed

lemma step_planned: "planned n s \<Longrightarrow> planned n (step on_sendable e s)"
  by (cases e)
    (auto simp: on_sendable_planned,
     auto simp: planned_def flow_def on_tracker_accept_def connection_close_def)

lemma run_planned: "planned n s \<Longrightarrow> planned n (run on_sendable evs s)"
  by (induction evs arbitrary: s) (auto simp: step_planned)

lemma step_number_to_send: "number_to_send (step on_sendable e s) = number_to_send s"
  by (cases e) (auto simp: on_sendable_keeps flow_def on_tracker_accept_def connection_close_def)

lemma run_number_to_send: "number_to_send (run on_sendable evs s) = number_to_send s"
  by (induction evs arbitrary: s) (auto simp: step_number_to_send)

lemma on_sendable_all:
  "number_to_send s - sent s \<le> credit s \<Longrightarrow> sent s \<le> number_to_send s
   \<Longrightarrow> sent (on_sendable s) = number_to_send s"
proof (induction s rule: on_sendable.induct)
  case (1 s)
  show ?case
  proof (cases "credit s > 0 \<and> sent s < number_to_send s")
    case True
    let ?s' = "(send_msg (sent s) s)\<lparr>sent := sent s + 1\<rparr>"
    have eq: "on_sendable s = on_sendable ?s'"
      using True by (subst on_sendable_unfold) simp
    have "number_to_send ?s' - sent ?s' \<le> credit ?s'" "sent ?s' \<le> number_to_send ?s'"
      using "1.prems" True by (auto simp: send_msg_def)
    with "1.IH" True have "sent (on_sendable ?s') = number_to_send ?s'"
      by simp
    with eq show ?thesis by (simp add: send_msg_def)
  next
    case False
    then have "on_sendable s = s" by (subst on_sendable_unfold) auto
    with "1.prems" False show ?thesis by auto
  qed
qed

lemma step_done:
  "sent s = number_to_send s \<Longrightarrow>
   sent (step on_sendable e s) = sent s
   \<and> number_to_send (step on_sendable e s) = number_to_send s
   \<and> transfers (step on_sendable e s) = transfers s"
proof (cases e)
  case Sendable
  assume "sent s = number_to_send s"
  then have "on_sendable s = s" by (subst on_sendable_unfold) auto
  with Sendable show ?thesis by simp
qed (auto simp: flow_def on_tracker_accept_def connection_close_def)

lemma run_done:
  "sent s = number_to_send s \<Longrightarrow>
   sent (run on_sendable evs s) = sent s \<and> transfers (run on_sendable evs s) = transfers s"
proof (induction evs arbitrary: s)
  case Nil
  then show ?case by simp
next
  case (Cons e evs)
  from step_done [OF Cons.prems, of e] Cons.IH [of "step on_sendable e s"] Cons.prems
  show ?case by simp
qed

lemma enough_credit:
  assumes "0 \<le> n" "n \<le> int g"
  shows "int (length (transfers (run on_sendable (Flow g # Sendable # evs) (LoggingHandler n)))) = n"
proof -
  let ?s1 = "flow g (LoggingHandler n)"
  let ?s2 = "on_sendable ?s1"
  have p: "planned n ?s2"
    using assms by (intro on_sendable_planned) (simp add: planned_def flow_def LoggingHandler_def)
  have "number_to_send ?s1 - sent ?s1 \<le> credit ?s1" "sent ?s1 \<le> number_to_send ?s1"
    using assms by (auto simp: flow_def LoggingHandler_def)
  then have "sent ?s2 = number_to_send ?s1" using on_sendable_all [of ?s1] by simp
  then have d: "sent ?s2 = number_to_send ?s2" by (simp add: on_sendable_keeps)
  from run_done [OF d, of evs] p d show ?thesis by (simp add: planned_def)
qed

lemma accept_after_all_snoc:
  "accept_after_all n (xs @ [e]) =
     (accept_after_all n xs \<or> (is_accept e \<and> sent (run on_sendable xs (LoggingHandler n)) = n))"
proof
  assume "accept_after_all n (xs @ [e])"
  then obtain pre k post where d: "xs @ [e] = pre @ Accept k # post"
    and s: "sent (run on_sendable pre (LoggingHandler n)) = n"
    unfolding accept_after_all_def by blast
  show "accept_after_all n xs \<or> (is_accept e \<and> sent (run on_sendable xs (LoggingHandler n)) = n)"
  proof (cases post rule: rev_cases)
    case Nil
    with d have "xs = pre" "e = Accept k" by auto
    with s show ?thesis by simp
  next
    case (snoc post' y)
    with d have "xs = pre @ Accept k # post'" by auto
    with s show ?thesis unfolding accept_after_all_def by blast
  qed
next
  assume "accept_after_all n xs \<or> (is_accept e \<and> sent (run on_sendable xs (LoggingHandler n)) = n)"
  then show "accept_after_all n (xs @ [e])"
  proof
    assume "accept_after_all n xs"
    then obtain pre k post where "xs = pre @ Accept k # post"
      and s: "sent (run on_sendable pre (LoggingHandler n)) = n"
      unfolding accept_after_all_def by blast
    then have "xs @ [e] = pre @ Accept k # (post @ [e])" by simp
    with s show ?thesis unfolding accept_after_all_def by blast
  next
    assume a: "is_accept e \<and> sent (run on_sendable xs (LoggingHandler n)) = n"
    then obtain k where "e = Accept k" by (cases e) auto
    with a show ?thesis unfolding accept_after_all_def by blast
  qed
qed

lemma closed_iff_accept_after_all:
  "closed (run on_sendable evs (LoggingHandler n)) = accept_after_all n evs"
proof (induction evs rule: rev_induct)
  case Nil
  show ?case by (simp add: accept_after_all_def LoggingHandler_def)
next
  case (snoc e evs)
  let ?s = "run on_sendable evs (LoggingHandler n)"
  have nn: "number_to_send ?s = n"
    by (simp add: run_number_to_send LoggingHandler_def)
  have "closed (step on_sendable e ?s) = (closed ?s \<or> (is_accept e \<and> sent ?s = n))"
    using nn by (cases e) (auto simp: on_sendable_keeps flow_def on_tracker_accept_def connection_close_def)
  with snoc show ?case by (simp add: run_append accept_after_all_snoc)
qed

text \<open>
  C5, as the claim states it, fails: with credit 10 all ten messages are sent in one
  \<^verbatim>\<open>on_sendable\<close>, and the acceptance of the first transfer already finds
  \<open>sent = number_to_send\<close> and closes the connection; no acceptance of the tenth
  transfer has arrived.
\<close>

theorem close_after_all_sent_counterexample:
  "close_calls (run on_sendable [Flow 10, Sendable, Accept 1] (LoggingHandler 10)) = 1
   \<and> length (transfers (run on_sendable [Flow 10, Sendable, Accept 1] (LoggingHandler 10))) = 10
   \<and> Accept 10 \<notin> set [Flow 10, Sendable, Accept 1]"
  by (simp add: eval_sender)

text \<open>
  C5, amended. For the sender of \<^verbatim>\<open>send_lots.cpp\<close> with \<open>number_to_send = 10\<close> and every
  sequence of events: \<open>sent\<close> never exceeds 10 and is the number of transfers emitted;
  after a grant of at least 10 and one \<^verbatim>\<open>on_sendable\<close> exactly 10 transfers have been
  emitted, whatever follows; and \<^verbatim>\<open>connection().close()\<close> has been invoked (once) exactly
  when some \<^verbatim>\<open>on_tracker_accept\<close> came with \<open>sent = 10\<close>, that is on the first acceptance
  notified after the tenth send, of whichever transfer, and never by a send alone.
\<close>

theorem close_after_all_sent:
  "sent (run on_sendable evs (LoggingHandler 10)) \<le> 10
   \<and> int (length (transfers (run on_sendable evs (LoggingHandler 10))))
       = sent (run on_sendable evs (LoggingHandler 10))
   \<and> (10 \<le> g \<longrightarrow>
        length (transfers (run on_sendable (Flow g # Sendable # evs) (LoggingHandler 10))) = 10)
   \<and> close_calls (run on_sendable evs (LoggingHandler 10))
       = (if accept_after_all 10 evs then 1 else 0)"
proof -
  let ?s = "run on_sendable evs (LoggingHandler 10)"
  have "planned 10 (LoggingHandler 10)" by (simp add: planned_def LoggingHandler_def)
  then have p: "planned 10 ?s" by (rule run_planned)
  have e: "10 \<le> g \<longrightarrow>
        length (transfers (run on_sendable (Flow g # Sendable # evs) (LoggingHandler 10))) = 10"
    using enough_credit [of 10 g evs] by auto
  have "close_calls (LoggingHandler 10) = (if closed (LoggingHandler 10) then 1 else 0)"
    by (simp add: LoggingHandler_def)
  then have "close_calls ?s = (if closed ?s then 1 else 0)"
    by (intro run_close_inv) auto
  then have c: "close_calls ?s = (if accept_after_all 10 evs then 1 else 0)"
    by (simp add: closed_iff_accept_after_all)
  from p e c show ?thesis by (simp add: planned_def)
qed

theorem close_after_all_sent_witness:
  "(10::nat) \<le> 12
   \<and> length (transfers (run on_sendable (Flow 12 # Sendable # [Flow 10, Sendable, Accept 1])
        (LoggingHandler 10))) = 10
   \<and> accept_after_all 10 [Flow 10, Sendable, Accept 1]
   \<and> close_calls (run on_sendable [Flow 10, Sendable, Accept 1] (LoggingHandler 10)) = 1"
proof -
  have "[Flow 10, Sendable, Accept 1] = [Flow 10, Sendable] @ Accept 1 # []
      \<and> sent (run on_sendable [Flow 10, Sendable] (LoggingHandler 10)) = 10"
    by (simp add: eval_sender)
  then have a: "accept_after_all 10 [Flow 10, Sendable, Accept 1]"
    unfolding accept_after_all_def by blast
  from close_after_all_sent [of "[Flow 10, Sendable, Accept 1]" 12] a show ?thesis by simp
qed

section \<open>Properties of the thread-safe send\<close>

lemmas mt_defs =
  on_sender_open_def on_sendable_mt_def on_error_def drain_def send_enter_def send_resume_def
  send_finish_def send_locked_def wait_test_def spurious_def notify_all_def acquire_def
  release_def touch_def Let_def

text \<open>What the loop condition lets through.\<close>

lemma send_locked_passes:
  "threads (send_locked t m s) t =
     (if work_queue s \<noteq> Null \<or> current_sender_credit s \<noteq> 0 \<or> error_raised s
      then Past m else Waiting m)"
  by (simp add: mt_defs)

text \<open>
  C1. The claim (and the comment above the loop) asks \<^verbatim>\<open>send\<close> to wait until the work
  queue exists and there is credit or an error. The loop condition joins the two parts
  with \<^verbatim>\<open>&&\<close>, so the wait ends as soon as the work queue exists: after
  \<^verbatim>\<open>on_sender_open\<close>, with recorded credit 0 and no error, a call passes the wait at once
  and adds its closure to the work queue.
\<close>

theorem send_passes_without_credit:
  "threads (mt_run [OnSenderOpen, Call 0 ''Hello''] MyHandler) 0 = Past ''Hello''
   \<and> \<not> may_proceed (mt_run [OnSenderOpen, Call 0 ''Hello''] MyHandler)
   \<and> current_sender_credit (mt_run [OnSenderOpen, Call 0 ''Hello''] MyHandler) = 0
   \<and> \<not> error_raised (mt_run [OnSenderOpen, Call 0 ''Hello''] MyHandler)
   \<and> queue (mt_run [OnSenderOpen, Call 0 ''Hello'', Finish 0] MyHandler) = [SendClosure ''Hello'']"
  by (simp add: mt_defs MyHandler_def may_proceed_def)

text \<open>
  C2, as the claim states it, fails. Two threads wait; the replenishment records credit 1
  and wakes both; both pass the wait and add a closure before any other replenishment, and
  the thread that came second adds its closure first.
\<close>

theorem credit_not_spent_counterexample:
  "threads (mt_run [Call 0 ''a'', Call 1 ''b'', OnSenderOpen] MyHandler) 0 = Waiting ''a''
   \<and> threads (mt_run [Call 0 ''a'', Call 1 ''b'', OnSenderOpen] MyHandler) 1 = Waiting ''b''
   \<and> current_sender_credit
        (mt_run [Call 0 ''a'', Call 1 ''b'', OnSenderOpen, OnSendable 1] MyHandler) = 1
   \<and> queue (mt_run [Call 0 ''a'', Call 1 ''b'', OnSenderOpen, OnSendable 1,
                    Resume 1, Finish 1, Resume 0, Finish 0] MyHandler)
       = [SendClosure ''b'', SendClosure ''a'']"
  by (simp add: mt_defs MyHandler_def)

lemma one_call:
  assumes "work_queue s \<noteq> Null" "\<not> error_raised s" "threads s t = Idle \<or> threads s t = Returned"
  shows "queue (mt_run [Call t m, Finish t] s) = queue s @ [SendClosure m]
    \<and> work_queue (mt_run [Call t m, Finish t] s) = work_queue s
    \<and> error_raised (mt_run [Call t m, Finish t] s) = error_raised s
    \<and> current_sender_credit (mt_run [Call t m, Finish t] s) = current_sender_credit s
    \<and> threads (mt_run [Call t m, Finish t] s) t = Returned"
  using assms by (auto simp: mt_defs)

lemma many_calls:
  "work_queue s \<noteq> Null \<Longrightarrow> \<not> error_raised s \<Longrightarrow> threads s t = Idle \<or> threads s t = Returned
   \<Longrightarrow> queue (mt_run (calls t ms) s) = queue s @ map SendClosure ms
    \<and> current_sender_credit (mt_run (calls t ms) s) = current_sender_credit s"
proof (induction ms arbitrary: s)
  case Nil
  then show ?case by simp
next
  case (Cons m ms)
  let ?s' = "mt_run [Call t m, Finish t] s"
  note o = one_call [OF Cons.prems, of m]
  have "queue (mt_run (calls t ms) ?s') = queue ?s' @ map SendClosure ms
    \<and> current_sender_credit (mt_run (calls t ms) ?s') = current_sender_credit ?s'"
    using o Cons.prems by (intro Cons.IH) auto
  moreover have "mt_run (calls t (m # ms)) s = mt_run (calls t ms) ?s'" by simp
  ultimately show ?case using o by simp
qed

lemma credit_only_replenished:
  "\<not> is_replenish e \<Longrightarrow> current_sender_credit (mt_step e s) = current_sender_credit s"
  by (cases e) (auto simp: mt_defs split: tstate.splits list.splits closure.splits)

lemma replenished_init:
  "work_queue s \<noteq> Null \<Longrightarrow> \<not> error_raised s \<Longrightarrow> replenished c (on_sendable_mt c s)"
  by (auto simp: replenished_def mt_defs split: tstate.splits)

lemma replenished_step:
  "replenished c r \<Longrightarrow> e \<noteq> OnError \<Longrightarrow> \<not> is_replenish e \<Longrightarrow> replenished c (mt_step e r)"
  by (cases e) (auto simp: replenished_def mt_defs split: tstate.splits list.splits closure.splits)

lemma completed_step:
  "replenished c r \<Longrightarrow> e \<noteq> OnError \<Longrightarrow>
   emitted (mt_step e r) @ map msg_of (queue (mt_step e r))
     = emitted r @ map msg_of (queue r) @ finishing e r"
  by (cases e) (auto simp: replenished_def mt_defs split: tstate.splits list.splits closure.splits)

lemma replenished_run:
  "replenished c r \<Longrightarrow> OnError \<notin> set evs \<Longrightarrow> \<forall>e \<in> set evs. \<not> is_replenish e
   \<Longrightarrow> replenished c (mt_run evs r)
     \<and> emitted (mt_run evs r) @ map msg_of (queue (mt_run evs r))
         = emitted r @ map msg_of (queue r) @ completed evs r"
proof (induction evs arbitrary: r)
  case Nil
  then show ?case by simp
next
  case (Cons e evs)
  from Cons.prems have n: "e \<noteq> OnError" "\<not> is_replenish e" by auto
  from Cons.prems(1) n have r: "replenished c (mt_step e r)" by (rule replenished_step)
  from Cons.prems(1) n(1)
  have q: "emitted (mt_step e r) @ map msg_of (queue (mt_step e r))
     = emitted r @ map msg_of (queue r) @ finishing e r" by (rule completed_step)
  from Cons.IH [OF r] Cons.prems q show ?case by simp
qed

lemma replenished_passes:
  assumes "replenished c r"
  shows "(threads r u1 = Idle \<or> threads r u1 = Returned \<longrightarrow>
            threads (send_enter u1 m1 r) u1 = Past m1)
   \<and> (threads r u2 = Woken m2 \<longrightarrow> threads (send_resume u2 r) u2 = Past m2)
   \<and> (threads r u3 = Past m3 \<longrightarrow>
        threads (send_finish u3 r) u3 = Returned
        \<and> queue (send_finish u3 r) = queue r @ [SendClosure m3]
        \<and> current_sender_credit (send_finish u3 r) = c)"
  using assms by (auto simp: replenished_def mt_defs)

text \<open>
  C2, amended. A replenishment records the credit the link reports and wakes every
  waiting thread (\<^verbatim>\<open>notify_all\<close>), in no order of arrival. Nothing but a replenishment
  changes the recorded credit: \<^verbatim>\<open>send\<close> does not spend it. So after a replenishment that
  recorded a credit \<open>c\<close> above 0 with the work queue there and no error raised, and until
  the next replenishment or an error, whatever the threads and the container do in
  whatever order: the recorded credit stays \<open>c\<close>; no thread is blocked in the wait; a
  thread that calls \<^verbatim>\<open>send\<close> passes the wait, and so does a woken one; a call that reaches
  its end adds exactly one closure and returns; the messages of the calls that have
  reached their end are those emitted or in the work queue, once each, in the order in
  which the calls ended. Their number is not bounded by \<open>c\<close>: one thread alone adds a
  closure for each message of a list of any length.
\<close>

theorem credit_not_spent:
  "(threads s t = Waiting m \<longrightarrow> threads (on_sendable_mt c s) t = Woken m)
   \<and> current_sender_credit (on_sendable_mt c s) = c
   \<and> (\<not> is_replenish e \<longrightarrow> current_sender_credit (mt_step e s) = current_sender_credit s)
   \<and> (work_queue s \<noteq> Null \<and> \<not> error_raised s \<and> 0 < c
        \<and> OnError \<notin> set evs \<and> (\<forall>e \<in> set evs. \<not> is_replenish e) \<longrightarrow>
        current_sender_credit (mt_run evs (on_sendable_mt c s)) = c
        \<and> (\<forall>t m. threads (mt_run evs (on_sendable_mt c s)) t \<noteq> Waiting m)
        \<and> (threads (mt_run evs (on_sendable_mt c s)) u1 = Idle
             \<or> threads (mt_run evs (on_sendable_mt c s)) u1 = Returned \<longrightarrow>
            threads (send_enter u1 m1 (mt_run evs (on_sendable_mt c s))) u1 = Past m1)
        \<and> (threads (mt_run evs (on_sendable_mt c s)) u2 = Woken m2 \<longrightarrow>
            threads (send_resume u2 (mt_run evs (on_sendable_mt c s))) u2 = Past m2)
        \<and> (threads (mt_run evs (on_sendable_mt c s)) u3 = Past m3 \<longrightarrow>
            threads (send_finish u3 (mt_run evs (on_sendable_mt c s))) u3 = Returned
            \<and> queue (send_finish u3 (mt_run evs (on_sendable_mt c s)))
                = queue (mt_run evs (on_sendable_mt c s)) @ [SendClosure m3]
            \<and> current_sender_credit (send_finish u3 (mt_run evs (on_sendable_mt c s))) = c)
        \<and> emitted (mt_run evs (on_sendable_mt c s))
            @ map msg_of (queue (mt_run evs (on_sendable_mt c s)))
            = emitted s @ map msg_of (queue s) @ completed evs (on_sendable_mt c s))
   \<and> (work_queue s' \<noteq> Null \<and> \<not> error_raised s' \<and> 0 < current_sender_credit s'
        \<and> (threads s' u = Idle \<or> threads s' u = Returned) \<longrightarrow>
        queue (mt_run (calls u ms) s') = queue s' @ map SendClosure ms
        \<and> current_sender_credit (mt_run (calls u ms) s') = current_sender_credit s')"
proof -
  have 1: "threads s t = Waiting m \<longrightarrow> threads (on_sendable_mt c s) t = Woken m"
    by (simp add: mt_defs)
  have 2: "current_sender_credit (on_sendable_mt c s) = c"
    by (simp add: mt_defs)
  have 3: "\<not> is_replenish e \<longrightarrow> current_sender_credit (mt_step e s) = current_sender_credit s"
    using credit_only_replenished by blast
  have 4: "current_sender_credit (mt_run evs (on_sendable_mt c s)) = c
        \<and> (\<forall>t m. threads (mt_run evs (on_sendable_mt c s)) t \<noteq> Waiting m)
        \<and> (threads (mt_run evs (on_sendable_mt c s)) u1 = Idle
             \<or> threads (mt_run evs (on_sendable_mt c s)) u1 = Returned \<longrightarrow>
            threads (send_enter u1 m1 (mt_run evs (on_sendable_mt c s))) u1 = Past m1)
        \<and> (threads (mt_run evs (on_sendable_mt c s)) u2 = Woken m2 \<longrightarrow>
            threads (send_resume u2 (mt_run evs (on_sendable_mt c s))) u2 = Past m2)
        \<and> (threads (mt_run evs (on_sendable_mt c s)) u3 = Past m3 \<longrightarrow>
            threads (send_finish u3 (mt_run evs (on_sendable_mt c s))) u3 = Returned
            \<and> queue (send_finish u3 (mt_run evs (on_sendable_mt c s)))
                = queue (mt_run evs (on_sendable_mt c s)) @ [SendClosure m3]
            \<and> current_sender_credit (send_finish u3 (mt_run evs (on_sendable_mt c s))) = c)
        \<and> emitted (mt_run evs (on_sendable_mt c s))
            @ map msg_of (queue (mt_run evs (on_sendable_mt c s)))
            = emitted s @ map msg_of (queue s) @ completed evs (on_sendable_mt c s)"
    if h: "work_queue s \<noteq> Null" "\<not> error_raised s" "OnError \<notin> set evs"
      "\<forall>e \<in> set evs. \<not> is_replenish e"
  proof -
    let ?s0 = "on_sendable_mt c s"
    let ?r = "mt_run evs ?s0"
    have "replenished c ?s0" using h(1,2) by (rule replenished_init)
    from replenished_run [OF this h(3,4)]
    have r: "replenished c ?r"
      and q: "emitted ?r @ map msg_of (queue ?r)
                = emitted ?s0 @ map msg_of (queue ?s0) @ completed evs ?s0" by auto
    have e: "emitted ?s0 = emitted s" "queue ?s0 = queue s" by (simp_all add: mt_defs)
    from r have "current_sender_credit ?r = c" "\<forall>t m. threads ?r t \<noteq> Waiting m"
      by (simp_all add: replenished_def)
    with replenished_passes [OF r, of u1 m1 u2 m2 u3 m3] q e show ?thesis by simp
  qed
  have 5: "work_queue s' \<noteq> Null \<and> \<not> error_raised s' \<and> 0 < current_sender_credit s'
        \<and> (threads s' u = Idle \<or> threads s' u = Returned) \<longrightarrow>
        queue (mt_run (calls u ms) s') = queue s' @ map SendClosure ms
        \<and> current_sender_credit (mt_run (calls u ms) s') = current_sender_credit s'"
    using many_calls [of s' u ms] by blast
  from 1 2 3 4 5 show ?thesis by blast
qed

theorem credit_not_spent_witness:
  "(let s = mt_run [Call 0 ''a'', Call 1 ''b'', OnSenderOpen] MyHandler;
        evs = [Resume 1, Finish 1, Call 2 ''c'', Drain];
        r = mt_run evs (on_sendable_mt 1 s);
        s' = mt_run [OnSenderOpen, OnSendable 1] MyHandler
    in threads s 0 = Waiting ''a'' \<and> threads (on_sendable_mt 1 s) 0 = Woken ''a''
     \<and> \<not> is_replenish (Call 2 ''x'')
     \<and> work_queue s \<noteq> Null \<and> \<not> error_raised s \<and> (0::int) < 1
     \<and> OnError \<notin> set evs \<and> \<not> is_replenish (Resume 1) \<and> \<not> is_replenish Drain
     \<and> current_sender_credit r = 1
     \<and> threads r 1 = Returned \<and> threads (send_enter 1 ''d'' r) 1 = Past ''d''
     \<and> threads r 0 = Woken ''a'' \<and> threads (send_resume 0 r) 0 = Past ''a''
     \<and> threads r 2 = Past ''c'' \<and> threads (send_finish 2 r) 2 = Returned
     \<and> queue (send_finish 2 r) = [SendClosure ''c'']
     \<and> emitted r = [''b''] \<and> completed evs (on_sendable_mt 1 s) = [''b'']
     \<and> work_queue s' \<noteq> Null \<and> \<not> error_raised s' \<and> 0 < current_sender_credit s'
     \<and> threads s' 0 = Idle
     \<and> queue (mt_run (calls 0 [''a'', ''b'', ''c'']) s')
         = [SendClosure ''a'', SendClosure ''b'', SendClosure ''c'']
     \<and> current_sender_credit (mt_run (calls 0 [''a'', ''b'', ''c'']) s') = 1)"
  using credit_not_spent [where s = "mt_run [Call 0 ''a'', Call 1 ''b'', OnSenderOpen] MyHandler"
      and t = 0 and m = "''a''" and c = 1 and e = "Call 2 ''x''"
      and evs = "[Resume 1, Finish 1, Call 2 ''c'', Drain]"
      and ?u1.0 = 1 and ?m1.0 = "''d''" and ?u2.0 = 0 and ?m2.0 = "''a''"
      and ?u3.0 = 2 and ?m3.0 = "''c''"
      and s' = "mt_run [OnSenderOpen, OnSendable 1] MyHandler" and u = 0
      and ms = "[''a'', ''b'', ''c'']"]
  by (simp add: mt_defs MyHandler_def)

lemma error_step: "error_raised s \<Longrightarrow> error_raised (mt_step e s)"
  by (cases e) (auto simp: mt_defs split: tstate.splits list.splits closure.splits)

lemma error_run: "error_raised s \<Longrightarrow> error_raised (mt_run evs s)"
  by (induction evs arbitrary: s) (auto simp: error_step)

lemma past_step: "threads s t = Past m \<Longrightarrow> e \<noteq> Finish t \<Longrightarrow> threads (mt_step e s) t = Past m"
  by (cases e) (auto simp: mt_defs split: tstate.splits list.splits closure.splits)

lemma past_run:
  "threads s t = Past m \<Longrightarrow> Finish t \<notin> set evs \<Longrightarrow> threads (mt_run evs s) t = Past m"
  by (induction evs arbitrary: s) (auto simp: past_step)

lemma finish_error:
  "threads s t = Past m \<Longrightarrow> error_raised s \<Longrightarrow>
   threads (send_finish t s) t = Threw \<and> queue (send_finish t s) = queue s
   \<and> emitted (send_finish t s) = emitted s"
  by (simp add: mt_defs)

lemma finish_ok:
  "threads s t = Past m \<Longrightarrow> \<not> error_raised s \<Longrightarrow> work_queue s \<noteq> Null \<Longrightarrow>
   threads (send_finish t s) t = Returned \<and> queue (send_finish t s) = queue s @ [SendClosure m]
   \<and> emitted (send_finish t s) = emitted s"
  by (simp add: mt_defs)

text \<open>
  C3, as the claim states it, fails in its second half. The call below passes the wait
  with credit 1 and no error raised; \<^verbatim>\<open>on_error\<close> runs before the call reaches
  \<^verbatim>\<open>if (error_raised)\<close>, which is outside the atomic section; the call throws and adds
  nothing.
\<close>

theorem send_outcome_counterexample:
  "threads (mt_run [OnSenderOpen, OnSendable 1, Call 0 ''m''] MyHandler) 0 = Past ''m''
   \<and> \<not> error_raised (mt_run [OnSenderOpen, OnSendable 1, Call 0 ''m''] MyHandler)
   \<and> threads (mt_run [OnSenderOpen, OnSendable 1, Call 0 ''m'', OnError, Finish 0] MyHandler) 0
       = Threw
   \<and> queue (mt_run [OnSenderOpen, OnSendable 1, Call 0 ''m'', OnError, Finish 0] MyHandler) = []"
  by (simp add: mt_defs MyHandler_def)

text \<open>
  C3, amended. \<^verbatim>\<open>send\<close> decides by the value of \<open>error_raised\<close> it reads after the wait.
  If the flag is true when the wait completes, it is still true at that read, whatever
  happens in between (it is never reset): the call throws, and neither the work queue nor
  the transfers change. If the flag is false at that read and the work queue exists, the
  call adds exactly one closure holding its message, returns, and emits no transfer itself.
\<close>

theorem send_outcome:
  "(threads s t = Past m \<and> error_raised s \<and> Finish t \<notin> set evs \<longrightarrow>
      threads (send_finish t (mt_run evs s)) t = Threw
      \<and> queue (send_finish t (mt_run evs s)) = queue (mt_run evs s)
      \<and> emitted (send_finish t (mt_run evs s)) = emitted (mt_run evs s))
   \<and> (threads s' u = Past m' \<and> \<not> error_raised s' \<and> work_queue s' \<noteq> Null \<longrightarrow>
      threads (send_finish u s') u = Returned
      \<and> queue (send_finish u s') = queue s' @ [SendClosure m']
      \<and> emitted (send_finish u s') = emitted s')"
proof -
  have 1: "threads (send_finish t (mt_run evs s)) t = Threw
      \<and> queue (send_finish t (mt_run evs s)) = queue (mt_run evs s)
      \<and> emitted (send_finish t (mt_run evs s)) = emitted (mt_run evs s)"
    if "threads s t = Past m" "error_raised s" "Finish t \<notin> set evs"
  proof -
    have "threads (mt_run evs s) t = Past m" using that(1,3) by (rule past_run)
    moreover have "error_raised (mt_run evs s)" using that(2) by (rule error_run)
    ultimately show ?thesis by (rule finish_error)
  qed
  have 2: "threads (send_finish u s') u = Returned
      \<and> queue (send_finish u s') = queue s' @ [SendClosure m']
      \<and> emitted (send_finish u s') = emitted s'"
    if "threads s' u = Past m'" "\<not> error_raised s'" "work_queue s' \<noteq> Null"
    using that by (rule finish_ok)
  from 1 2 show ?thesis by blast
qed

theorem send_outcome_witness:
  "threads (mt_run [Call 0 ''m'', OnError, Resume 0] MyHandler) 0 = Past ''m''
   \<and> error_raised (mt_run [Call 0 ''m'', OnError, Resume 0] MyHandler)
   \<and> Finish 0 \<notin> set [OnSenderOpen, OnSendable 2, Drain]
   \<and> threads (send_finish 0 (mt_run [OnSenderOpen, OnSendable 2, Drain]
        (mt_run [Call 0 ''m'', OnError, Resume 0] MyHandler))) 0 = Threw
   \<and> queue (send_finish 0 (mt_run [OnSenderOpen, OnSendable 2, Drain]
        (mt_run [Call 0 ''m'', OnError, Resume 0] MyHandler))) = []
   \<and> threads (mt_run [OnSenderOpen, OnSendable 2, Call 1 ''n''] MyHandler) 1 = Past ''n''
   \<and> \<not> error_raised (mt_run [OnSenderOpen, OnSendable 2, Call 1 ''n''] MyHandler)
   \<and> work_queue (mt_run [OnSenderOpen, OnSendable 2, Call 1 ''n''] MyHandler) \<noteq> Null
   \<and> queue (send_finish 1 (mt_run [OnSenderOpen, OnSendable 2, Call 1 ''n''] MyHandler))
       = [SendClosure ''n'']
   \<and> emitted (send_finish 1 (mt_run [OnSenderOpen, OnSendable 2, Call 1 ''n''] MyHandler)) = []"
  using send_outcome [of "mt_run [Call 0 ''m'', OnError, Resume 0] MyHandler" 0 "''m''"
      "[OnSenderOpen, OnSendable 2, Drain]"
      "mt_run [OnSenderOpen, OnSendable 2, Call 1 ''n''] MyHandler" 1 "''n''"]
  by (simp add: mt_defs MyHandler_def)

text \<open>
  C4. The claim asks for every read and write of \<open>current_sender_credit\<close> and
  \<open>error_raised\<close> to happen with the lock held. \<^verbatim>\<open>on_sendable\<close> writes the credit under
  its \<^verbatim>\<open>lock_guard\<close>; \<^verbatim>\<open>on_error\<close> has none and writes \<open>error_raised\<close> without the lock,
  and \<^verbatim>\<open>send\<close> reads \<open>error_raised\<close> (and then \<open>work_queue\<close>) after its atomic section
  has ended. The log of a run in which a waiting call is ended by an error shows both
  accesses with the lock not held.
\<close>

theorem error_flag_outside_lock:
  "accesses (on_sendable_mt 1 MyHandler) = [(Wr F_current_sender_credit, True)]
   \<and> accesses (on_error MyHandler) = [(Wr F_error_raised, False)]
   \<and> accesses (mt_run [Call 0 ''m'', OnError, Resume 0, Finish 0] MyHandler)
       = [(Rd F_work_queue, True), (Rd F_current_sender_credit, True), (Rd F_error_raised, True),
          (Wr F_error_raised, False),
          (Rd F_work_queue, True), (Rd F_current_sender_credit, True), (Rd F_error_raised, True),
          (Rd F_error_raised, False)]
   \<and> accesses (mt_run [OnSenderOpen, Call 0 ''m'', Finish 0] MyHandler)
       = [(Wr F_sender, True), (Wr F_work_queue, True), (Rd F_work_queue, True),
          (Rd F_error_raised, False), (Rd F_work_queue, False)]"
  by (simp add: mt_defs MyHandler_def)

section \<open>Properties of the receivers\<close>

text \<open>
  C7, as the claim states it, fails for \<^verbatim>\<open>container_per_thread.cpp\<close>: the conversion
  of the body is not inside a \<^verbatim>\<open>try\<close>. A body that is a number makes
  \<^verbatim>\<open>proton::coerce<std::string>\<close> throw, the exception leaves \<^verbatim>\<open>on_message\<close> after
  \<^verbatim>\<open>count++\<close>, and the application has issued no disposition, neither accept nor reject.
\<close>

theorem explicit_disposition_counterexample:
  "on_message_per_thread coerce_string handle_message (V_long 42)
       \<lparr>count = 0, my_num = 0\<rparr> new_delivery
     = Exception (\<lparr>count = 1, my_num = 0\<rparr>, \<lparr>dispositions = []\<rparr>)
   \<and> per_thread_dispositions coerce_string handle_message \<lparr>count = 0, my_num = 0\<rparr> (V_long 42) = []"
  by (simp add: on_message_per_thread_def per_thread_dispositions_def settle_after_def
      new_delivery_def)

text \<open>
  C7, amended. In \<^verbatim>\<open>receive_client_ack.cpp\<close> every delivery gets exactly one disposition
  from the application: accept if the body decodes as a string, reject if the decoding
  throws; the container's default acceptance adds nothing to it. In
  \<^verbatim>\<open>container_per_thread.cpp\<close>, where \<^verbatim>\<open>auto_accept\<close> is off, every delivery whose body
  converts to a string gets exactly one disposition: accept if the message handler reports
  success (as \<^verbatim>\<open>handle_message\<close> always does), reject if it reports failure; and the
  dispositions of a delivery are those the application issued, nothing else.
\<close>

theorem explicit_disposition:
  "on_message_client_ack get body new_delivery
     = Normal \<lparr>dispositions = (case get body of Some x \<Rightarrow> [D_accept] | None \<Rightarrow> [D_reject])\<rparr>
   \<and> client_ack_dispositions get body
     = (case get body of Some x \<Rightarrow> [D_accept] | None \<Rightarrow> [D_reject])
   \<and> (coerce body' = Some m \<longrightarrow>
        per_thread_dispositions coerce hm h body' = (if hm m \<noteq> 0 then [D_accept] else [D_reject])
        \<and> per_thread_dispositions coerce handle_message h body' = [D_accept])
   \<and> settle_after False (Normal d) = dispositions d
   \<and> settle_after False (Exception d) = dispositions d"
  by (auto simp: on_message_client_ack_def client_ack_dispositions_def settle_after_def
      new_delivery_def accept_def reject_def on_message_per_thread_def
      per_thread_dispositions_def handle_message_def split: option.splits)

theorem explicit_disposition_witness:
  "coerce_string (V_symbol ''x'') = Some ''x''
   \<and> client_ack_dispositions get_string (V_symbol ''x'') = [D_reject]
   \<and> client_ack_dispositions get_string (V_string ''x'') = [D_accept]
   \<and> per_thread_dispositions coerce_string (\<lambda>m. 0) \<lparr>count = 0, my_num = 0\<rparr> (V_symbol ''x'')
       = [D_reject]
   \<and> per_thread_dispositions coerce_string handle_message \<lparr>count = 0, my_num = 0\<rparr> (V_symbol ''x'')
       = [D_accept]"
  using explicit_disposition [of get_string "V_symbol ''x''" coerce_string "V_symbol ''x''" "''x''"
      "\<lambda>m. 0" "\<lparr>count = 0, my_num = 0\<rparr>"]
    explicit_disposition [of get_string "V_string ''x''" coerce_string "V_symbol ''x''" "''x''"
      "\<lambda>m. 0" "\<lparr>count = 0, my_num = 0\<rparr>"]
  by simp

section \<open>Properties of the server\<close>

text \<open>
  C9, as the claim states it, fails: for a target address other than \<open>foo\<close> the server
  does not close the link, it closes the connection.
\<close>

theorem invalid_address_counterexample:
  "connection_state (on_receiver_open ''bar'' attached) = Closed_with ''Invalid address''
   \<and> receiver_state (on_receiver_open ''bar'' attached) = Open"
  by (simp add: on_receiver_open_def attached_def)

text \<open>
  C9, amended. When a peer attaches to a target address other than \<open>foo\<close>, the server
  closes the whole connection with the error condition ``Invalid address''; it issues no
  close of the link or of the session. An attach to \<open>foo\<close> changes nothing.
\<close>

theorem invalid_address:
  "(address \<noteq> ''foo'' \<longrightarrow>
      connection_state (on_receiver_open address p) = Closed_with ''Invalid address'')
   \<and> receiver_state (on_receiver_open address p) = receiver_state p
   \<and> session_state (on_receiver_open address p) = session_state p
   \<and> on_receiver_open ''foo'' p = p"
  by (simp add: on_receiver_open_def)

theorem invalid_address_witness:
  "''queue1'' \<noteq> ''foo''
   \<and> on_receiver_open ''queue1'' attached
       = \<lparr>receiver_state = Open, session_state = Open,
          connection_state = Closed_with ''Invalid address''\<rparr>
   \<and> on_receiver_open ''foo'' attached = attached"
  using invalid_address [of "''queue1''" attached]
  by (simp add: on_receiver_open_def attached_def)

end
